theory Spec2Isabelle
  imports Main "HOL-Library.Word"
begin

section \<open>JavaScript strings\<close>

text \<open>
  A JavaScript string is a sequence of UTF-16 code units. The regular expressions of
  \<^verbatim>\<open>_handleProcessOutput\<close> carry neither the \<^verbatim>\<open>u\<close> nor the \<^verbatim>\<open>i\<close> flag, so they
  work on single code units, and \<^verbatim>\<open>String.prototype.trim\<close> removes the code units
  that ECMAScript calls WhiteSpace or LineTerminator.
\<close>

type_synonym code_unit = "16 word"

type_synonym jsstring = "code_unit list"

definition str :: "string \<Rightarrow> jsstring" where
  "str s = map (\<lambda>c. of_nat (of_char c)) s"

abbreviation ESC :: code_unit where "ESC \<equiv> 0x1B"

abbreviation LF :: code_unit where "LF \<equiv> 0x0A"

abbreviation CR :: code_unit where "CR \<equiv> 0x0D"

abbreviation LBRACKET :: code_unit where "LBRACKET \<equiv> 0x5B"

definition is_param :: "code_unit \<Rightarrow> bool" where
  \<comment> \<open>the class \<^verbatim>\<open>[0-9;]\<close>\<close>
  "is_param c \<longleftrightarrow> (0x30 \<le> c \<and> c \<le> 0x39) \<or> c = 0x3B"

definition is_letter :: "code_unit \<Rightarrow> bool" where
  \<comment> \<open>the class \<^verbatim>\<open>[a-zA-Z]\<close>\<close>
  "is_letter c \<longleftrightarrow> (0x61 \<le> c \<and> c \<le> 0x7A) \<or> (0x41 \<le> c \<and> c \<le> 0x5A)"

definition is_space :: "code_unit \<Rightarrow> bool" where
  \<comment> \<open>WhiteSpace and LineTerminator of ECMAScript, what \<^verbatim>\<open>trim\<close> removes\<close>
  "is_space c \<longleftrightarrow>
     c = 0x09 \<or> c = 0x0A \<or> c = 0x0B \<or> c = 0x0C \<or> c = 0x0D \<or> c = 0x20 \<or> c = 0xA0 \<or>
     c = 0x1680 \<or> (0x2000 \<le> c \<and> c \<le> 0x200A) \<or> c = 0x2028 \<or> c = 0x2029 \<or>
     c = 0x202F \<or> c = 0x205F \<or> c = 0x3000 \<or> c = 0xFEFF"

definition trim :: "jsstring \<Rightarrow> jsstring" where
  "trim s = rev (dropWhile is_space (rev (dropWhile is_space s)))"

section \<open>The frame decoder's text operations\<close>

text \<open>
  \<open>match_csi s\<close> tries the pattern \<^verbatim>\<open>\x1b\[[0-9;]*[a-zA-Z]\<close> at the start of \<open>s\<close> and
  returns the text after the match. The parameter class and the letter class are
  disjoint, so the greedy star has a single way to succeed: it takes every parameter
  unit, and the next unit must be a letter.
\<close>

definition match_csi :: "jsstring \<Rightarrow> jsstring option" where
  "match_csi s =
     (case s of
        e # b # r \<Rightarrow>
          (if e = ESC \<and> b = LBRACKET
           then (case dropWhile is_param r of
                   [] \<Rightarrow> None
                 | l # r' \<Rightarrow> if is_letter l then Some r' else None)
           else None)
      | _ \<Rightarrow> None)"

text \<open>
  \<^verbatim>\<open>data.replace(/\x1b\[[0-9;]*[a-zA-Z]/g, "")\<close>: the global replace scans from the left;
  where the pattern matches, the match is dropped and the scan goes on after it, elsewhere
  the code unit is kept.
\<close>

function strip_csi :: "jsstring \<Rightarrow> jsstring" where
  "strip_csi [] = []"
| "strip_csi (c # cs) =
     (case match_csi (c # cs) of
        Some r \<Rightarrow> strip_csi r
      | None \<Rightarrow> c # strip_csi cs)"
  by pat_completeness auto

termination
proof (relation "measure length")
  fix c cs r
  assume m: "match_csi (c # cs) = Some r"
  then obtain b t where cs: "cs = b # t"
    by (cases cs) (auto simp: match_csi_def)
  from m cs obtain l where "dropWhile is_param t = l # r"
    by (auto simp: match_csi_def split: if_splits list.splits)
  then have "length r < length (dropWhile is_param t)"
    by simp
  also have "\<dots> \<le> length t"
    by (rule length_dropWhile_le)
  finally show "(r, c # cs) \<in> measure length"
    using cs by simp
qed simp_all

definition strip_cr_esc :: "jsstring \<Rightarrow> jsstring" where
  \<comment> \<open>\<^verbatim>\<open>data.replace(/[\r\x1b]/g, "")\<close>\<close>
  "strip_cr_esc s = filter (\<lambda>c. c \<noteq> CR \<and> c \<noteq> ESC) s"

definition clean :: "jsstring \<Rightarrow> jsstring" where
  "clean data = strip_cr_esc (strip_csi data)"

text \<open>
  \<^verbatim>\<open>split(/\r?\n/)\<close>: every line feed ends a segment, and a carriage return right before
  a line feed belongs to the separator. The result always has a last segment, the text
  after the last separator.
\<close>

fun split_lines :: "jsstring \<Rightarrow> jsstring list" where
  "split_lines [] = [[]]"
| "split_lines (c # cs) =
     (if c = LF then [] # split_lines cs
      else if c = CR \<and> cs \<noteq> [] \<and> hd cs = LF then split_lines cs
      else (case split_lines cs of
              [] \<Rightarrow> [[c]]
            | l # ls \<Rightarrow> (c # l) # ls))"

definition pop_or_empty :: "jsstring list \<Rightarrow> jsstring" where
  \<comment> \<open>\<^verbatim>\<open>lines.pop() || ""\<close>\<close>
  "pop_or_empty ls = (if ls = [] then [] else last ls)"

section \<open>The transport and its collaborators\<close>

typedecl boot_options

datatype file_node = FileNode (contents: jsstring)

datatype transport_options =
    FileBased
      (files: "jsstring \<rightharpoonup> jsstring")
      (entrypoint: "jsstring option")
      (bootOptions: "boot_options option")
  | SpawnBased
      (command: jsstring)
      (args: "jsstring list")
      (env: "(jsstring \<rightharpoonup> jsstring) option")
      (bootOptions: "boot_options option")

datatype status = Booting | Mounting | Installing | Running | Unmounting | Teardowned

datatype js_error = Error string | TypeError string

text \<open>
  Everything the transport does to the outside: the four callback slots
  (\<^verbatim>\<open>onStatusChange\<close>, \<^verbatim>\<open>onerror\<close>, \<^verbatim>\<open>onmessage\<close>, \<^verbatim>\<open>onclose\<close>) and the operations of
  the WebContainer, the process and its streams. An absent callback is one that does
  nothing. \<open>SpawnProc\<close> carries the command, its arguments and the \<^verbatim>\<open>env\<close> of the options
  object, if one is passed; \<open>Delay\<close> is the timer of \<^verbatim>\<open>close\<close>, in milliseconds.
\<close>

datatype 'm action =
    StatusChange status
  | OnError js_error
  | OnMessage 'm
  | OnClose
  | Boot "boot_options option"
  | Mount "jsstring \<rightharpoonup> file_node"
  | SpawnProc jsstring "jsstring list" "(jsstring \<rightharpoonup> jsstring) option"
  | AwaitExit
  | PipeOutput
  | GetWriter
  | Write jsstring
  | ReleaseLock
  | Kill
  | Delay nat
  | Teardown

record process_handle =
  input_locked :: bool

datatype container_handle = ContainerHandle

text \<open>
  The fields of \<^verbatim>\<open>WebContainerTransport\<close> (the unused \<^verbatim>\<open>_pendingRequests\<close> apart), and
  \<open>trace\<close>, the actions performed so far, oldest first.
\<close>

record 'm transport =
  options :: transport_options
  webContainer :: "container_handle option"
  process :: "process_handle option"
  started :: bool
  outputBuffer :: jsstring
  initialized :: bool
  trace :: "'m action list"

definition new_transport :: "transport_options \<Rightarrow> 'm transport" where
  "new_transport opts =
     \<lparr>options = opts, webContainer = None, process = None, started = False,
      outputBuffer = [], initialized = False, trace = []\<rparr>"

text \<open>
  What the code does not decide: \<^verbatim>\<open>JSON.stringify\<close>; \<^verbatim>\<open>JSON.parse\<close>, which returns the
  value a line denotes or throws (\<open>None\<close>); \<^verbatim>\<open>JSONRPCMessageSchema.parse\<close>, which returns
  the message it makes of a parsed value or throws (\<open>None\<close>); and whether an action
  throws or rejects (\<open>world d a = Some e\<close>) or returns. The type \<open>'m\<close> is that of the
  JavaScript values, parsed values and messages alike. A callback
  is an action like the others: it may throw. Three actions never throw and are recorded
  with \<open>emit\<close>: \<^verbatim>\<open>pipeTo\<close>, whose promise the code does not await, the timer, and
  \<^verbatim>\<open>releaseLock\<close>. Within one call of \<^verbatim>\<open>start\<close>, \<^verbatim>\<open>send\<close> or \<^verbatim>\<open>close\<close> no action is
  performed twice, so a function of the action decides what each does; two calls may
  be given different collaborators. A step is a statement: it returns the error it
  throws, if any, and the state it leaves.
\<close>

record 'm deps =
  stringify :: "'m \<Rightarrow> jsstring"
  json_parse :: "jsstring \<Rightarrow> 'm option"
  schema_parse :: "'m \<Rightarrow> 'm option"
  world :: "'m action \<Rightarrow> js_error option"

type_synonym 'm step = "'m transport \<Rightarrow> js_error option \<times> 'm transport"

definition perform :: "'m deps \<Rightarrow> 'm action \<Rightarrow> 'm step" where
  "perform d a t = (world d a, t\<lparr>trace := trace t @ [a]\<rparr>)"

definition emit :: "'m action \<Rightarrow> 'm step" where
  \<comment> \<open>an action that cannot throw\<close>
  "emit a t = (None, t\<lparr>trace := trace t @ [a]\<rparr>)"

definition assign :: "('m transport \<Rightarrow> 'm transport) \<Rightarrow> 'm step" where
  "assign f t = (None, f t)"

definition store_result :: "'m step \<Rightarrow> ('m transport \<Rightarrow> 'm transport) \<Rightarrow> 'm step" where
  \<comment> \<open>\<^verbatim>\<open>this.x = await call()\<close>: the assignment happens when the call returns\<close>
  "store_result f g t = (case f t of (None, t') \<Rightarrow> (None, g t') | (Some e, t') \<Rightarrow> (Some e, t'))"

fun run_steps :: "'m step list \<Rightarrow> 'm step" where
  "run_steps [] t = (None, t)"
| "run_steps (f # fs) t =
     (case f t of
        (Some e, t') \<Rightarrow> (Some e, t')
      | (None, t') \<Rightarrow> run_steps fs t')"

definition swallow :: "'m step \<Rightarrow> 'm step" where
  \<comment> \<open>\<^verbatim>\<open>try { ... } catch (error) { }\<close>\<close>
  "swallow f t = (None, snd (f t))"

definition guarded :: "('m transport \<Rightarrow> bool) \<Rightarrow> 'm step \<Rightarrow> 'm step" where
  "guarded c f t = (if c t then f t else (None, t))"

definition report_and_rethrow :: "'m deps \<Rightarrow> js_error \<Rightarrow> 'm step" where
  \<comment> \<open>\<^verbatim>\<open>this.onerror?.(error); throw error;\<close>\<close>
  "report_and_rethrow d e t =
     (case perform d (OnError e) t of
        (None, t') \<Rightarrow> (Some e, t')
      | (Some e', t') \<Rightarrow> (Some e', t'))"

subsection \<open>start\<close>

definition has_manifest :: "(jsstring \<rightharpoonup> jsstring) \<Rightarrow> bool" where
  \<comment> \<open>the truthiness of \<^verbatim>\<open>this._options.files["package.json"]\<close>\<close>
  "has_manifest fs =
     (case fs (str ''package.json'') of None \<Rightarrow> False | Some content \<Rightarrow> content \<noteq> [])"

definition entry_or_default :: "jsstring option \<Rightarrow> jsstring" where
  \<comment> \<open>\<^verbatim>\<open>this._options.entrypoint || "index.js"\<close>\<close>
  "entry_or_default ep =
     (case ep of None \<Rightarrow> str ''index.js'' | Some e \<Rightarrow> if e = [] then str ''index.js'' else e)"

definition webContainerFiles :: "(jsstring \<rightharpoonup> jsstring) \<Rightarrow> (jsstring \<rightharpoonup> file_node)" where
  "webContainerFiles fs = (\<lambda>filename. map_option FileNode (fs filename))"

definition set_process :: "'m transport \<Rightarrow> 'm transport" where
  "set_process t = t\<lparr>process := Some \<lparr>input_locked = False\<rparr>\<rparr>"

definition start_steps :: "'m deps \<Rightarrow> transport_options \<Rightarrow> 'm step list" where
  "start_steps d opts =
     [assign (\<lambda>t. t\<lparr>started := True\<rparr>),
      perform d (StatusChange Booting),
      store_result (perform d (Boot (bootOptions opts)))
        (\<lambda>t. t\<lparr>webContainer := Some ContainerHandle\<rparr>)]
     @ (case opts of
          FileBased fs ep bo \<Rightarrow>
            [perform d (StatusChange Mounting),
             perform d (Mount (webContainerFiles fs))]
            @ (if has_manifest fs
               then [perform d (StatusChange Installing),
                     perform d (SpawnProc (str ''npm'') [str ''install''] None),
                     perform d AwaitExit]
               else [])
            @ [perform d (StatusChange Running),
               store_result (perform d (SpawnProc (str ''node'') [entry_or_default ep] None))
                 set_process]
        | SpawnBased cmd as ev bo \<Rightarrow>
            [perform d (StatusChange Running),
             store_result (perform d (SpawnProc cmd as ev)) set_process])
     @ [emit PipeOutput,
        assign (\<lambda>t. t\<lparr>initialized := True\<rparr>)]"

definition start :: "'m deps \<Rightarrow> 'm step" where
  "start d t =
     (if started t then (Some (Error ''WebContainerTransport already started!''), t)
      else (case run_steps (start_steps d (options t)) t of
              (None, t') \<Rightarrow> (None, t')
            | (Some e, t') \<Rightarrow> report_and_rethrow d e (t'\<lparr>started := False\<rparr>)))"

subsection \<open>send\<close>

text \<open>
  \<^verbatim>\<open>getWriter()\<close> of a WritableStream throws a TypeError when the stream is locked to a
  writer and locks it otherwise; \<^verbatim>\<open>releaseLock()\<close> unlocks it.
\<close>

definition getWriter :: "'m step" where
  "getWriter t =
     (case process t of
        None \<Rightarrow> (Some (TypeError ''no process''), t)
      | Some p \<Rightarrow>
          if input_locked p
          then (Some (TypeError ''stream is locked''), t\<lparr>trace := trace t @ [GetWriter]\<rparr>)
          else (None, t\<lparr>process := Some (p\<lparr>input_locked := True\<rparr>),
                         trace := trace t @ [GetWriter]\<rparr>))"

definition releaseLock :: "'m step" where
  "releaseLock t =
     (None, t\<lparr>process := map_option (\<lambda>p. p\<lparr>input_locked := False\<rparr>) (process t),
               trace := trace t @ [ReleaseLock]\<rparr>)"

definition send :: "'m deps \<Rightarrow> 'm \<Rightarrow> 'm step" where
  "send d message t =
     (case process t of
        None \<Rightarrow> (Some (Error ''Transport not started''), t)
      | Some _ \<Rightarrow>
          (case run_steps
                  [getWriter,
                   perform d (Write (stringify d message @ [LF])),
                   releaseLock] t of
             (None, t') \<Rightarrow> (None, t')
           | (Some e, t') \<Rightarrow> report_and_rethrow d e t'))"

subsection \<open>close\<close>

definition kill_process :: "'m deps \<Rightarrow> 'm step" where
  \<comment> \<open>the block guarded by \<^verbatim>\<open>if (this._process)\<close>\<close>
  "kill_process d =
     guarded (\<lambda>t. process t \<noteq> None)
       (run_steps
          [swallow (run_steps [perform d Kill, emit (Delay 1000)]),
           assign (\<lambda>t. t\<lparr>process := None\<rparr>)])"

definition teardown_container :: "'m deps \<Rightarrow> 'm step" where
  \<comment> \<open>the block guarded by \<^verbatim>\<open>if (this._webContainer)\<close>\<close>
  "teardown_container d =
     guarded (\<lambda>t. webContainer t \<noteq> None)
       (run_steps
          [swallow (run_steps [perform d (StatusChange Teardowned), perform d Teardown]),
           assign (\<lambda>t. t\<lparr>webContainer := None\<rparr>)])"

definition close :: "'m deps \<Rightarrow> 'm step" where
  "close d =
     run_steps
       [guarded started (perform d (StatusChange Unmounting)),
        kill_process d,
        teardown_container d,
        assign (\<lambda>t. t\<lparr>started := False, initialized := False\<rparr>),
        perform d OnClose]"

subsection \<open>The decoder\<close>

fun deliver :: "'m deps \<Rightarrow> jsstring list \<Rightarrow> 'm transport \<Rightarrow> 'm transport" where
  "deliver d [] t = t"
| "deliver d (line # rest) t =
     (if trim line = [] then deliver d rest t
      else (case json_parse d line of
              None \<Rightarrow> deliver d rest t
            | Some parsed \<Rightarrow>
                (case schema_parse d parsed of
                   None \<Rightarrow> deliver d rest t
                 | Some message \<Rightarrow>
                     deliver d rest (snd (swallow (perform d (OnMessage message)) t)))))"

definition handleProcessOutput :: "'m deps \<Rightarrow> jsstring \<Rightarrow> 'm transport \<Rightarrow> 'm transport" where
  "handleProcessOutput d data t =
     (let data1 = strip_csi data;
          data2 = strip_cr_esc data1;
          buffer = outputBuffer t @ data2;
          lines = split_lines buffer
      in deliver d (butlast lines) (t\<lparr>outputBuffer := pop_or_empty lines\<rparr>))"

definition pipe_chunks :: "'m deps \<Rightarrow> jsstring list \<Rightarrow> 'm transport \<Rightarrow> 'm transport" where
  \<comment> \<open>the chunks of the process's output, written one by one to the piped stream\<close>
  "pipe_chunks d chunks t = foldl (\<lambda>t' data. handleProcessOutput d data t') t chunks"

section \<open>The vocabulary of the properties\<close>

text \<open>
  The lines of a text that a line feed has ended, the text after the last line feed,
  what the two parses make of a line (\<open>None\<close> when either throws), and the messages
  the message callback receives for a list of lines: the results of the two parses for
  the lines that do not trim to the empty string.
\<close>

definition complete_lines :: "jsstring \<Rightarrow> jsstring list" where
  "complete_lines s = butlast (split_lines s)"

definition pending_text :: "jsstring \<Rightarrow> jsstring" where
  "pending_text s = last (split_lines s)"

definition validate :: "'m deps \<Rightarrow> jsstring \<Rightarrow> 'm option" where
  "validate d line =
     (case json_parse d line of None \<Rightarrow> None | Some parsed \<Rightarrow> schema_parse d parsed)"

definition line_messages :: "'m deps \<Rightarrow> jsstring list \<Rightarrow> 'm action list" where
  "line_messages d ls =
     map OnMessage (List.map_filter (validate d) (filter (\<lambda>l. trim l \<noteq> []) ls))"

text \<open>
  An unfinished escape sequence is \<^verbatim>\<open>ESC\<close> alone, or \<^verbatim>\<open>ESC [\<close> followed by parameter
  units only: the text that a following chunk can complete to a match of the pattern.
  A chunk ends inside one when one of its suffixes is such a text; the boundaries of a
  list of chunks lie outside the escape sequences when no chunk but the last does.
\<close>

definition partial_csi :: "jsstring \<Rightarrow> bool" where
  "partial_csi s =
     (case s of
        [] \<Rightarrow> False
      | e # r \<Rightarrow> e = ESC \<and> (r = [] \<or> (hd r = LBRACKET \<and> list_all is_param (tl r))))"

fun ends_in_partial_csi :: "jsstring \<Rightarrow> bool" where
  "ends_in_partial_csi [] = False"
| "ends_in_partial_csi (c # cs) = (partial_csi (c # cs) \<or> ends_in_partial_csi cs)"

definition boundaries_outside_csi :: "jsstring list \<Rightarrow> bool" where
  "boundaries_outside_csi chunks = list_all (\<lambda>c. \<not> ends_in_partial_csi c) (butlast chunks)"

text \<open>
  \<open>new_actions t t'\<close> are the actions performed between the states \<open>t\<close> and \<open>t'\<close>,
  \<open>status_changes\<close> the statuses among them that reached the status callback.
\<close>

definition new_actions :: "'m transport \<Rightarrow> 'm transport \<Rightarrow> 'm action list" where
  "new_actions t t' = drop (length (trace t)) (trace t')"

fun status_of :: "'m action \<Rightarrow> status option" where
  "status_of (StatusChange s) = Some s"
| "status_of _ = None"

definition status_changes :: "'m action list \<Rightarrow> status list" where
  "status_changes as = List.map_filter status_of as"

text \<open>
  The try block of \<^verbatim>\<open>start\<close> performs \<open>start_actions\<close> in order and stops at the first
  one that throws: \<open>attempt\<close> returns the actions performed and the error, if any.
\<close>

fun attempt :: "'m deps \<Rightarrow> 'm action list \<Rightarrow> 'm action list \<times> js_error option" where
  "attempt d [] = ([], None)"
| "attempt d (a # as) =
     (case world d a of
        Some e \<Rightarrow> ([a], Some e)
      | None \<Rightarrow> (case attempt d as of (performed, r) \<Rightarrow> (a # performed, r)))"

definition start_actions :: "transport_options \<Rightarrow> 'm action list" where
  "start_actions opts =
     [StatusChange Booting, Boot (bootOptions opts)]
     @ (case opts of
          FileBased fs ep bo \<Rightarrow>
            [StatusChange Mounting, Mount (webContainerFiles fs)]
            @ (if has_manifest fs
               then [StatusChange Installing, SpawnProc (str ''npm'') [str ''install''] None,
                     AwaitExit]
               else [])
            @ [StatusChange Running, SpawnProc (str ''node'') [entry_or_default ep] None]
        | SpawnBased cmd as ev bo \<Rightarrow>
            [StatusChange Running, SpawnProc cmd as ev])"

text \<open>
  How a \<^verbatim>\<open>start()\<close> on a transport that is not started settles, in one expression
  (lemma \<open>start_eq_settled\<close> below).
\<close>

definition start_settled :: "'m deps \<Rightarrow> 'm transport \<Rightarrow> js_error option \<times> 'm transport" where
  "start_settled d t =
     (case attempt d (start_actions (options t)) of
        (performed, None) \<Rightarrow>
          (None, t\<lparr>started := True, webContainer := Some ContainerHandle,
                  process := Some \<lparr>input_locked = False\<rparr>, initialized := True,
                  trace := trace t @ performed @ [PipeOutput]\<rparr>)
      | (performed, Some e) \<Rightarrow>
          (case world d (OnError e) of None \<Rightarrow> Some e | Some e' \<Rightarrow> Some e',
           t\<lparr>started := False,
             webContainer := if Boot (bootOptions (options t)) \<in> set (butlast performed)
                             then Some ContainerHandle else webContainer t,
             trace := trace t @ performed @ [OnError e]\<rparr>))"

text \<open>
  What a \<^verbatim>\<open>close()\<close> performs when the unmounting status callback returns: the status
  if the transport is started, the kill and, if the kill returns, the delay if a process
  is held, the teardowned status and, if its callback returns, the teardown if an
  environment is held, and the close callback.
\<close>

definition close_actions :: "'m deps \<Rightarrow> 'm transport \<Rightarrow> 'm action list" where
  "close_actions d t =
     (if started t then [StatusChange Unmounting] else [])
     @ (if process t = None then []
        else Kill # (if world d Kill = None then [Delay 1000] else []))
     @ (if webContainer t = None then []
        else StatusChange Teardowned #
          (if world d (StatusChange Teardowned) = None then [Teardown] else []))
     @ [OnClose]"

text \<open>
  The invariant of the state: initialized implies started, and a process handle is held
  only by a started transport that holds an environment handle.
\<close>

definition state_invariant :: "'m transport \<Rightarrow> bool" where
  "state_invariant t \<longleftrightarrow>
     (initialized t \<longrightarrow> started t) \<and>
     (process t \<noteq> None \<longrightarrow> started t \<and> webContainer t \<noteq> None)"

section \<open>Concrete configurations and collaborators\<close>

text \<open>
  A server that prints a JSON-RPC notification in green, and parses that accept the
  notification's text and no other line that occurs with them below; the values are the
  texts themselves.
\<close>

definition ping_line :: jsstring where
  \<open>ping_line = str ''{"jsonrpc":"2.0","method":"ping"}''\<close>

definition text_deps :: "jsstring deps" where
  "text_deps =
     \<lparr>stringify = id,
      json_parse = (\<lambda>l. if l = ping_line then Some l else None),
      schema_parse = Some,
      world = (\<lambda>a. None)\<rparr>"

definition spawn_transport :: "jsstring transport" where
  "spawn_transport = new_transport (SpawnBased (str ''node'') [str ''server.js''] None None)"

definition colored_whole :: "jsstring list" where
  "colored_whole = [[ESC] @ str ''[32m'' @ ping_line @ [LF]]"

definition colored_split :: "jsstring list" where
  "colored_split = [[ESC] @ str ''[3'', str ''2m'' @ ping_line @ [LF]]"

definition colored_pieces :: "jsstring list" where
  \<open>colored_pieces =
     [[ESC] @ str ''[32m{"jsonrpc":'', str ''"2.0","method":"ping"}'' @ [ESC] @ str ''[0m'', [LF]]\<close>

definition colored_stream :: "jsstring list" where
  "colored_stream = [[ESC] @ str ''[32m'' @ ping_line @ [ESC] @ str ''[0m'' @ [LF]]"

definition noisy_chunks :: "jsstring list" where
  \<open>noisy_chunks =
     [str ''server listening'' @ [LF] @ str ''  '' @ [CR, LF] @ str ''{"jsonrpc":"2.0",'',
      str ''"method":"ping"}'' @ [LF] @ str ''{"jsonrpc":'']\<close>

text \<open>
  JavaScript values as far as the runs below need them, and two pairs of parses. Both
  read the notification and an error response whose error object has a key \<^verbatim>\<open>hint\<close>
  that the schema does not declare. In \<open>json_deps\<close> the schema returns the response
  without that key, as an object schema that strips unknown keys does; in \<open>exact_deps\<close>
  it accepts the notification only and returns it as it is.
\<close>

datatype json = JNumber int | JString string | JObject "(string \<times> json) list"

definition ping_object :: json where
  "ping_object = JObject [(''jsonrpc'', JString ''2.0''), (''method'', JString ''ping'')]"

definition hinted_error_line :: jsstring where
  \<open>hinted_error_line =
     str ''{"jsonrpc":"2.0","id":1,"error":{"code":-32601,"message":"Method not found","hint":"x"}}''\<close>

definition hinted_error :: json where
  "hinted_error =
     JObject [(''jsonrpc'', JString ''2.0''), (''id'', JNumber 1),
       (''error'', JObject [(''code'', JNumber (- 32601)),
          (''message'', JString ''Method not found''), (''hint'', JString ''x'')])]"

definition plain_error :: json where
  "plain_error =
     JObject [(''jsonrpc'', JString ''2.0''), (''id'', JNumber 1),
       (''error'', JObject [(''code'', JNumber (- 32601)),
          (''message'', JString ''Method not found'')])]"

definition json_deps :: "json deps" where
  "json_deps =
     \<lparr>stringify = (\<lambda>v. if v = ping_object then ping_line else []),
      json_parse = (\<lambda>l. if l = ping_line then Some ping_object
                         else if l = hinted_error_line then Some hinted_error else None),
      schema_parse = (\<lambda>v. if v = ping_object then Some ping_object
                           else if v = hinted_error then Some plain_error else None),
      world = (\<lambda>a. None)\<rparr>"

definition exact_deps :: "json deps" where
  "exact_deps = json_deps\<lparr>schema_parse := (\<lambda>v. if v = ping_object then Some v else None)\<rparr>"

definition json_transport :: "json transport" where
  "json_transport = new_transport (SpawnBased (str ''node'') [str ''server.js''] None None)"

text \<open>
  Two file mappings, one whose \<^verbatim>\<open>package.json\<close> has a content and one whose
  \<^verbatim>\<open>package.json\<close> is the empty string; a transport that has started; and
  collaborators in which the chosen actions throw.
\<close>

definition manifest_files :: "jsstring \<rightharpoonup> jsstring" where
  "manifest_files =
     [str ''index.js'' \<mapsto> str ''process.stdin.pipe(process.stdout)'',
      str ''package.json'' \<mapsto> str ''{}'']"

definition empty_manifest_files :: "jsstring \<rightharpoonup> jsstring" where
  "empty_manifest_files =
     [str ''index.js'' \<mapsto> str ''process.stdin.pipe(process.stdout)'',
      str ''package.json'' \<mapsto> []]"

definition files_transport :: "(jsstring \<rightharpoonup> jsstring) \<Rightarrow> jsstring transport" where
  "files_transport fs = new_transport (FileBased fs None None)"

definition running_transport :: "jsstring transport" where
  "running_transport = snd (start text_deps spawn_transport)"

definition failing :: "(jsstring action \<Rightarrow> bool) \<Rightarrow> string \<Rightarrow> jsstring deps" where
  "failing which msg = text_deps\<lparr>world := (\<lambda>a. if which a then Some (Error msg) else None)\<rparr>"

fun is_boot :: "'m action \<Rightarrow> bool" where
  "is_boot (Boot _) = True"
| "is_boot _ = False"

fun is_spawn :: "'m action \<Rightarrow> bool" where
  "is_spawn (SpawnProc _ _ _) = True"
| "is_spawn _ = False"

fun is_write :: "'m action \<Rightarrow> bool" where
  "is_write (Write _) = True"
| "is_write _ = False"

fun is_kill_or_teardown :: "'m action \<Rightarrow> bool" where
  "is_kill_or_teardown Kill = True"
| "is_kill_or_teardown Teardown = True"
| "is_kill_or_teardown _ = False"

fun is_error_callback :: "'m action \<Rightarrow> bool" where
  "is_error_callback (OnError _) = True"
| "is_error_callback _ = False"

text \<open>Collaborators in which the boot rejects and the error callback throws.\<close>

definition throwing_handler_deps :: "jsstring deps" where
  "throwing_handler_deps =
     text_deps\<lparr>world := (\<lambda>a. if is_boot a then Some (Error ''boot failed'')
                              else if is_error_callback a then Some (Error ''handler failed'')
                              else None)\<rparr>"

text \<open>
  A transport whose \<^verbatim>\<open>start()\<close> failed at the spawn: it is not started and holds the
  environment that was booted.
\<close>

definition half_started :: "jsstring transport" where
  "half_started = snd (start (failing is_spawn ''spawn failed'') spawn_transport)"

section \<open>Lines across chunk boundaries\<close>

lemma split_lines_ne: "split_lines s \<noteq> []"
  by (induction s) (auto split: list.splits)

lemma split_lines_no_LF: "LF \<notin> set s \<Longrightarrow> split_lines s = [s]"
proof (induction s)
  case Nil
  show ?case by simp
next
  case (Cons c s)
  then have "hd s \<noteq> LF \<or> s = []"
    by (cases s) auto
  with Cons show ?case by auto
qed

lemma split_lines_LF: "LF \<in> set s \<Longrightarrow> 2 \<le> length (split_lines s)"
proof (induction s)
  case Nil
  then show ?case by simp
next
  case (Cons c s)
  show ?case
  proof (cases "c = LF")
    case True
    then show ?thesis
      using split_lines_ne [of s] by (cases "split_lines s") auto
  next
    case False
    with Cons.prems have "LF \<in> set s" by simp
    then have "2 \<le> length (split_lines s)" by (rule Cons.IH)
    with False show ?thesis
      by (cases "split_lines s") auto
  qed
qed

lemma split_lines_single: "split_lines s = [l] \<Longrightarrow> l = s"
proof -
  assume a: "split_lines s = [l]"
  have "LF \<notin> set s"
  proof
    assume "LF \<in> set s"
    then have "2 \<le> length (split_lines s)" by (rule split_lines_LF)
    with a show False by simp
  qed
  then have "split_lines s = [s]" by (rule split_lines_no_LF)
  with a show ?thesis by simp
qed

lemma split_lines_append:
  "split_lines (a @ b) = butlast (split_lines a) @ split_lines (last (split_lines a) @ b)"
proof (induction a)
  case Nil
  show ?case by simp
next
  case (Cons c a)
  let ?rest = "split_lines (last (split_lines a) @ b)"
  consider (lf) "c = LF"
    | (crlf) "c = CR" "a @ b \<noteq> []" "hd (a @ b) = LF"
    | (other) "c \<noteq> LF" "\<not> (c = CR \<and> a @ b \<noteq> [] \<and> hd (a @ b) = LF)"
    by blast
  then show ?case
  proof cases
    case lf
    then show ?thesis
      using Cons.IH split_lines_ne [of a] by simp
  next
    case crlf
    show ?thesis
    proof (cases "a = []")
      case True
      with crlf show ?thesis by simp
    next
      case False
      with crlf have "hd a = LF" by simp
      with crlf False show ?thesis
        using Cons.IH by simp
    qed
  next
    case other
    then have not_sep: "\<not> (c = CR \<and> a \<noteq> [] \<and> hd a = LF)"
      by auto
    show ?thesis
    proof (cases "split_lines a")
      case Nil
      with split_lines_ne show ?thesis by blast
    next
      case (Cons l ls)
      show ?thesis
      proof (cases ls)
        case Nil
        with Cons have "l = a" by (simp add: split_lines_single)
        with Cons Nil other not_sep show ?thesis
          by (auto simp: hd_append)
      next
        case (Cons l' ls')
        with \<open>split_lines a = l # ls\<close> other not_sep Cons.IH show ?thesis
          using split_lines_ne [of "last (split_lines a) @ b"]
          by (simp split: list.splits)
      qed
    qed
  qed
qed

lemma complete_lines_append:
  "complete_lines (a @ b) = complete_lines a @ complete_lines (pending_text a @ b)"
  unfolding complete_lines_def pending_text_def
  by (subst split_lines_append) (simp add: butlast_append split_lines_ne)

lemma pending_text_append:
  "pending_text (a @ b) = pending_text (pending_text a @ b)"
  unfolding pending_text_def
  by (subst split_lines_append) (simp add: split_lines_ne)

lemma line_messages_append:
  "line_messages d (xs @ ys) = line_messages d xs @ line_messages d ys"
  by (simp add: line_messages_def map_filter_def)

lemma deliver_eq:
  "deliver d ls t = t\<lparr>trace := trace t @ line_messages d ls\<rparr>"
proof (induction ls arbitrary: t)
  case Nil
  show ?case by (simp add: line_messages_def map_filter_simps)
next
  case (Cons l ls)
  show ?case
    by (simp add: Cons.IH line_messages_def validate_def map_filter_simps swallow_def
        perform_def split: option.splits)
qed

lemma handleProcessOutput_eq:
  "handleProcessOutput d data t =
     t\<lparr>outputBuffer := pending_text (outputBuffer t @ clean data),
       trace := trace t @ line_messages d (complete_lines (outputBuffer t @ clean data))\<rparr>"
  by (simp add: handleProcessOutput_def Let_def deliver_eq pop_or_empty_def split_lines_ne
      clean_def complete_lines_def pending_text_def)

lemma pending_text_no_LF: "LF \<notin> set (pending_text s)"
proof
  assume "LF \<in> set (pending_text s)"
  then have two: "2 \<le> length (split_lines (pending_text s))"
    by (rule split_lines_LF)
  have "split_lines (s @ []) =
      butlast (split_lines s) @ split_lines (last (split_lines s) @ [])"
    by (rule split_lines_append)
  then have "butlast (split_lines s) @ [last (split_lines s)] =
      butlast (split_lines s) @ split_lines (pending_text s)"
    by (simp add: split_lines_ne pending_text_def)
  then have "split_lines (pending_text s) = [pending_text s]"
    by (simp add: pending_text_def)
  with two show False by simp
qed

lemma handleProcessOutput_no_LF: "LF \<notin> set (outputBuffer (handleProcessOutput d data t))"
  by (simp add: handleProcessOutput_eq pending_text_no_LF)

lemma pending_text_id: "LF \<notin> set s \<Longrightarrow> pending_text s = s"
  by (simp add: pending_text_def split_lines_no_LF)

lemma complete_lines_none: "LF \<notin> set s \<Longrightarrow> complete_lines s = []"
  by (simp add: complete_lines_def split_lines_no_LF)

lemma pipe_chunks_eq:
  "LF \<notin> set (outputBuffer t) \<Longrightarrow>
   pipe_chunks d chunks t =
     t\<lparr>outputBuffer := pending_text (outputBuffer t @ concat (map clean chunks)),
       trace := trace t @ line_messages d (complete_lines (outputBuffer t @ concat (map clean chunks)))\<rparr>"
proof (induction chunks arbitrary: t)
  case Nil
  then show ?case
    by (simp add: pipe_chunks_def pending_text_id complete_lines_none line_messages_def
        map_filter_simps)
next
  case (Cons c cs)
  let ?t = "handleProcessOutput d c t"
  have step: "pipe_chunks d (c # cs) t = pipe_chunks d cs ?t"
    by (simp add: pipe_chunks_def)
  have "LF \<notin> set (outputBuffer ?t)"
    by (simp add: handleProcessOutput_eq pending_text_no_LF)
  then have "pipe_chunks d cs ?t =
     ?t\<lparr>outputBuffer := pending_text (outputBuffer ?t @ concat (map clean cs)),
       trace := trace ?t @ line_messages d (complete_lines (outputBuffer ?t @ concat (map clean cs)))\<rparr>"
    by (rule Cons.IH)
  moreover have "complete_lines (outputBuffer t @ clean c @ concat (map clean cs)) =
      complete_lines (outputBuffer t @ clean c) @
      complete_lines (pending_text (outputBuffer t @ clean c) @ concat (map clean cs))"
    using complete_lines_append [of "outputBuffer t @ clean c" "concat (map clean cs)"]
    by simp
  moreover have "pending_text (outputBuffer t @ clean c @ concat (map clean cs)) =
      pending_text (pending_text (outputBuffer t @ clean c) @ concat (map clean cs))"
    using pending_text_append [of "outputBuffer t @ clean c" "concat (map clean cs)"]
    by simp
  ultimately show ?case
    using step by (simp add: handleProcessOutput_eq line_messages_append)
qed

section \<open>Escape sequences across chunk boundaries\<close>

lemma dropWhile_Cons_append:
  "dropWhile P xs = y # ys \<Longrightarrow> dropWhile P (xs @ zs) = y # ys @ zs"
  by (induction xs) (auto split: if_splits)

lemma match_csi_append_Some: "match_csi s = Some r \<Longrightarrow> match_csi (s @ b) = Some (r @ b)"
proof -
  assume m: "match_csi s = Some r"
  then obtain e c t where s: "s = e # c # t"
    by (cases s rule: remdups_adj.cases) (auto simp: match_csi_def)
  from m s obtain l where l: "dropWhile is_param t = l # r" "is_letter l" "e = ESC" "c = LBRACKET"
    by (auto simp: match_csi_def split: if_splits list.splits)
  from l(1) have "dropWhile is_param (t @ b) = l # r @ b"
    by (rule dropWhile_Cons_append)
  with s l show ?thesis
    by (simp add: match_csi_def)
qed

lemma dropWhile_stops: "\<not> list_all P xs \<Longrightarrow> \<exists>y ys. dropWhile P xs = y # ys"
  by (induction xs) auto

lemma match_csi_append_None:
  assumes "match_csi s = None" and "\<not> partial_csi s" and "s \<noteq> []"
  shows "match_csi (s @ b) = None"
proof (cases s)
  case Nil
  with assms(3) show ?thesis by simp
next
  case (Cons e r)
  show ?thesis
  proof (cases "e = ESC \<and> r \<noteq> [] \<and> hd r = LBRACKET")
    case False
    with Cons assms(2) have "e \<noteq> ESC \<or> (r \<noteq> [] \<and> hd r \<noteq> LBRACKET)"
      by (auto simp: partial_csi_def)
    with Cons show ?thesis
      by (cases r) (auto simp: match_csi_def split: list.splits)
  next
    case True
    then obtain t where r: "r = LBRACKET # t"
      by (cases r) auto
    with Cons True assms(2) have "\<not> list_all is_param t"
      by (simp add: partial_csi_def)
    then obtain y ys where d: "dropWhile is_param t = y # ys"
      using dropWhile_stops by blast
    then have "dropWhile is_param (t @ b) = y # ys @ b"
      by (rule dropWhile_Cons_append)
    with assms(1) Cons r True d show ?thesis
      by (simp add: match_csi_def split: if_splits)
  qed
qed

lemma match_csi_suffix: "match_csi s = Some r \<Longrightarrow> \<exists>p. s = p @ r"
proof -
  assume m: "match_csi s = Some r"
  then obtain e b t where s: "s = e # b # t"
    by (cases s rule: remdups_adj.cases) (auto simp: match_csi_def)
  from m s obtain l where "dropWhile is_param t = l # r"
    by (auto simp: match_csi_def split: if_splits list.splits)
  then have "t = takeWhile is_param t @ l # r"
    by (metis takeWhile_dropWhile_id)
  with s have "s = (e # b # takeWhile is_param t @ [l]) @ r" by simp
  then show ?thesis ..
qed

lemma ends_in_partial_csi_suffix:
  "ends_in_partial_csi r \<Longrightarrow> ends_in_partial_csi (p @ r)"
  by (induction p) auto

lemma strip_csi_append:
  "\<not> ends_in_partial_csi a \<Longrightarrow> strip_csi (a @ b) = strip_csi a @ strip_csi b"
proof (induction a rule: strip_csi.induct)
  case 1
  show ?case by simp
next
  case (2 c cs)
  show ?case
  proof (cases "match_csi (c # cs)")
    case None
    from "2.prems" have np: "\<not> partial_csi (c # cs)" and ne: "\<not> ends_in_partial_csi cs"
      by simp_all
    from None np have "match_csi ((c # cs) @ b) = None"
      by (rule match_csi_append_None) simp
    moreover have "strip_csi (cs @ b) = strip_csi cs @ strip_csi b"
      using "2.IH" None ne by blast
    ultimately show ?thesis
      using None by simp
  next
    case (Some r)
    then obtain p where "c # cs = p @ r"
      using match_csi_suffix by blast
    with "2.prems" have "\<not> ends_in_partial_csi r"
      using ends_in_partial_csi_suffix by metis
    moreover from Some have "match_csi ((c # cs) @ b) = Some (r @ b)"
      by (rule match_csi_append_Some)
    moreover have "\<not> ends_in_partial_csi r \<Longrightarrow> strip_csi (r @ b) = strip_csi r @ strip_csi b"
      using "2.IH" Some by blast
    ultimately show ?thesis
      using Some by simp
  qed
qed

lemma clean_append:
  "\<not> ends_in_partial_csi a \<Longrightarrow> clean (a @ b) = clean a @ clean b"
  by (simp add: clean_def strip_csi_append strip_cr_esc_def)

lemma clean_concat:
  "boundaries_outside_csi chunks \<Longrightarrow> concat (map clean chunks) = clean (concat chunks)"
proof (induction chunks)
  case Nil
  show ?case by (simp add: clean_def strip_cr_esc_def)
next
  case (Cons c cs)
  show ?case
  proof (cases "cs = []")
    case True
    then show ?thesis by simp
  next
    case False
    with Cons.prems have "\<not> ends_in_partial_csi c" and "boundaries_outside_csi cs"
      by (simp_all add: boundaries_outside_csi_def)
    then show ?thesis
      using Cons.IH by (simp add: clean_append)
  qed
qed

section \<open>Chunking of the process output\<close>

lemmas eval_defs = pipe_chunks_def handleProcessOutput_def Let_def match_csi_def
  strip_cr_esc_def pop_or_empty_def trim_def is_space_def is_param_def is_letter_def
  swallow_def perform_def str_def new_transport_def

text \<open>
  C1, as stated, fails: when a chunk boundary falls inside the escape sequence
  \<^verbatim>\<open>ESC [ 3 2 m\<close>, the first chunk keeps \<^verbatim>\<open>[3\<close> in the buffer, the line becomes
  \<^verbatim>\<open>[32m{...}\<close> and is dropped, while the unsplit stream delivers the message.
\<close>

theorem chunking_counterexample:
  "concat colored_split = concat colored_whole \<and>
   trace (pipe_chunks text_deps colored_whole spawn_transport) = [OnMessage ping_line] \<and>
   trace (pipe_chunks text_deps colored_split spawn_transport) = []"
  by (simp add: colored_split_def colored_whole_def text_deps_def spawn_transport_def
      ping_line_def eval_defs)

text \<open>
  C1, amended: two ways of splitting the same stream into chunks, in neither of which a
  chunk other than the last ends inside an unfinished escape sequence (\<^verbatim>\<open>ESC\<close>, or
  \<^verbatim>\<open>ESC [\<close> and parameter units, the final letter still to come), deliver the same
  messages in the same order and leave the same text in the buffer. The buffer a
  transport starts from holds no line feed, which every call of the decoder maintains.
\<close>

theorem chunking_invariance:
  assumes "concat chunks1 = concat chunks2"
    and "boundaries_outside_csi chunks1"
    and "boundaries_outside_csi chunks2"
    and "LF \<notin> set (outputBuffer t)"
  shows "trace (pipe_chunks d chunks1 t) = trace (pipe_chunks d chunks2 t) \<and>
    outputBuffer (pipe_chunks d chunks1 t) = outputBuffer (pipe_chunks d chunks2 t)"
proof -
  have "concat (map clean chunks1) = clean (concat chunks1)"
    using assms(2) by (rule clean_concat)
  also have "\<dots> = clean (concat chunks2)"
    using assms(1) by simp
  also have "\<dots> = concat (map clean chunks2)"
    using assms(3) by (rule clean_concat [symmetric])
  finally show ?thesis
    using assms(4) by (simp add: pipe_chunks_eq)
qed

text \<open>
  C1, amended, on the green notification: cut after the first escape sequence and inside
  the line, and not cut at all.
\<close>

theorem chunking_invariance_witness:
  "concat colored_pieces = concat colored_stream \<and>
   boundaries_outside_csi colored_pieces \<and>
   boundaries_outside_csi colored_stream \<and>
   LF \<notin> set (outputBuffer spawn_transport) \<and>
   trace (pipe_chunks text_deps colored_pieces spawn_transport) = [OnMessage ping_line] \<and>
   trace (pipe_chunks text_deps colored_stream spawn_transport) = [OnMessage ping_line] \<and>
   outputBuffer (pipe_chunks text_deps colored_pieces spawn_transport) =
     outputBuffer (pipe_chunks text_deps colored_stream spawn_transport)"
proof -
  have c: "concat colored_pieces = concat colored_stream"
    by (simp add: colored_pieces_def colored_stream_def ping_line_def str_def)
  have b1: "boundaries_outside_csi colored_pieces"
    by (simp add: colored_pieces_def boundaries_outside_csi_def partial_csi_def str_def
        is_param_def)
  have b2: "boundaries_outside_csi colored_stream"
    by (simp add: colored_stream_def boundaries_outside_csi_def)
  have l: "LF \<notin> set (outputBuffer spawn_transport)"
    by (simp add: spawn_transport_def new_transport_def)
  have w: "trace (pipe_chunks text_deps colored_stream spawn_transport) = [OnMessage ping_line]"
    by (simp add: colored_stream_def text_deps_def spawn_transport_def ping_line_def eval_defs)
  show ?thesis
    using chunking_invariance [OF c b1 b2 l, of text_deps] c b1 b2 l w by simp
qed

section \<open>Valid and invalid lines\<close>

text \<open>
  C6, as stated, fails: the message callback receives what the schema returns, not the
  value the line denotes. The error response parses to an object whose error has the key
  \<^verbatim>\<open>hint\<close>; the message delivered is the object without it.
\<close>

theorem schema_result_counterexample:
  "json_parse json_deps hinted_error_line = Some hinted_error \<and>
   schema_parse json_deps hinted_error = Some plain_error \<and>
   trace (pipe_chunks json_deps [hinted_error_line @ [LF]] json_transport) =
     [OnMessage plain_error] \<and>
   plain_error \<noteq> hinted_error"
  by (simp add: json_deps_def json_transport_def hinted_error_line_def ping_line_def
      hinted_error_def plain_error_def ping_object_def eval_defs)

text \<open>
  C6, amended: the lines are those of the loop of \<^verbatim>\<open>_handleProcessOutput\<close>, the complete
  lines of the cleaned output. For every line that \<^verbatim>\<open>JSON.parse\<close> reads and whose value
  the schema accepts, the message callback receives the message the schema returns, in
  the order of the lines; for a line that either parse rejects nothing happens, neither
  a message nor an error, and the decoder goes on with the next line. A line of white
  space only is skipped before the parses see it (\<^verbatim>\<open>JSON.parse\<close> rejects such a line
  anyway). Where the schema returns every value it accepts unchanged, the message is the
  value the line denotes.
\<close>

theorem decoder_delivers_valid_lines:
  assumes "LF \<notin> set (outputBuffer t)"
  shows "trace (pipe_chunks d chunks t) =
      trace t @
      concat (map (\<lambda>line. case json_parse d line of
                           None \<Rightarrow> []
                         | Some parsed \<Rightarrow>
                             (case schema_parse d parsed of
                                None \<Rightarrow> []
                              | Some message \<Rightarrow>
                                  if trim line = [] then [] else [OnMessage message]))
                (complete_lines (outputBuffer t @ concat (map clean chunks)))) \<and>
    ((\<forall>parsed message. schema_parse d parsed = Some message \<longrightarrow> message = parsed) \<longrightarrow>
     trace (pipe_chunks d chunks t) =
      trace t @
      concat (map (\<lambda>line. case json_parse d line of
                           None \<Rightarrow> []
                         | Some parsed \<Rightarrow>
                             if schema_parse d parsed = None \<or> trim line = [] then []
                             else [OnMessage parsed])
                (complete_lines (outputBuffer t @ concat (map clean chunks)))))"
proof -
  let ?delivered = "\<lambda>line. case json_parse d line of
                           None \<Rightarrow> []
                         | Some parsed \<Rightarrow>
                             (case schema_parse d parsed of
                                None \<Rightarrow> []
                              | Some message \<Rightarrow>
                                  if trim line = [] then [] else [OnMessage message])"
  let ?parsed = "\<lambda>line. case json_parse d line of
                           None \<Rightarrow> []
                         | Some parsed \<Rightarrow>
                             if schema_parse d parsed = None \<or> trim line = [] then []
                             else [OnMessage parsed]"
  have "line_messages d ls = concat (map ?delivered ls)" for ls
    by (induction ls)
      (simp_all add: line_messages_def validate_def map_filter_simps split: option.splits)
  then have first: "trace (pipe_chunks d chunks t) =
      trace t @ concat (map ?delivered (complete_lines (outputBuffer t @ concat (map clean chunks))))"
    using assms by (simp add: pipe_chunks_eq)
  have "?delivered = ?parsed"
    if "\<forall>parsed message. schema_parse d parsed = Some message \<longrightarrow> message = parsed"
  proof
    fix line
    show "?delivered line = ?parsed line"
      using that by (auto split: option.splits)
  qed
  with first show ?thesis
    by simp
qed

text \<open>
  C6, amended, on an output with a log line, a line of spaces, the notification cut in
  two chunks and the beginning of a next line, with the schema that returns the
  notification as it is: one message is delivered, the value the line denotes, and the
  beginning stays in the buffer.
\<close>

theorem decoder_delivers_valid_lines_witness:
  \<open>LF \<notin> set (outputBuffer json_transport) \<and>
   complete_lines (outputBuffer json_transport @ concat (map clean noisy_chunks)) =
     [str ''server listening'', str ''  '', ping_line] \<and>
   json_parse exact_deps (str ''server listening'') = None \<and>
   json_parse exact_deps ping_line = Some ping_object \<and>
   schema_parse exact_deps ping_object = Some ping_object \<and>
   trace (pipe_chunks exact_deps noisy_chunks json_transport) = [OnMessage ping_object] \<and>
   outputBuffer (pipe_chunks exact_deps noisy_chunks json_transport) = str ''{"jsonrpc":''\<close>
proof -
  have l: "LF \<notin> set (outputBuffer json_transport)"
    by (simp add: json_transport_def new_transport_def)
  have c: \<open>complete_lines (outputBuffer json_transport @ concat (map clean noisy_chunks)) =
     [str ''server listening'', str ''  '', ping_line]\<close>
    by (simp add: json_transport_def new_transport_def noisy_chunks_def clean_def
        complete_lines_def ping_line_def str_def strip_cr_esc_def match_csi_def)
  have p: "json_parse exact_deps (str ''server listening'') = None"
    "json_parse exact_deps (str ''  '') = None"
    "json_parse exact_deps ping_line = Some ping_object"
    "schema_parse exact_deps ping_object = Some ping_object"
    by (simp_all add: exact_deps_def json_deps_def ping_line_def hinted_error_line_def str_def)
  have same: "\<forall>parsed message. schema_parse exact_deps parsed = Some message \<longrightarrow> message = parsed"
    by (simp add: exact_deps_def)
  have nb: "trim ping_line \<noteq> []"
    by (simp add: ping_line_def str_def trim_def is_space_def)
  have b: \<open>outputBuffer (pipe_chunks exact_deps noisy_chunks json_transport) = str ''{"jsonrpc":''\<close>
    by (simp add: noisy_chunks_def json_transport_def pipe_chunks_eq new_transport_def
        clean_def pending_text_def str_def strip_cr_esc_def match_csi_def)
  have "trace (pipe_chunks exact_deps noisy_chunks json_transport) = [OnMessage ping_object]"
    using decoder_delivers_valid_lines [OF l, of exact_deps noisy_chunks] same p nb
    by (simp add: c) (simp add: json_transport_def new_transport_def)
  with l c p b show ?thesis by simp
qed

section \<open>The lifecycle\<close>

lemmas step_defs = perform_def emit_def assign_def store_result_def swallow_def guarded_def
  report_and_rethrow_def set_process_def

lemma has_manifest_iff:
  "has_manifest fs \<longleftrightarrow> (\<exists>content. fs (str ''package.json'') = Some content \<and> content \<noteq> [])"
  by (simp add: has_manifest_def split: option.splits)

text \<open>
  C8: \<^verbatim>\<open>start()\<close> on a started transport raises the "already started" error at once;
  the state is the same afterwards, so no callback has fired.
\<close>

theorem start_already_started:
  assumes "started t"
  shows "start d t = (Some (Error ''WebContainerTransport already started!''), t)"
  using assms by (simp add: start_def)

lemma run_start_steps:
  "run_steps (start_steps d opts) t =
     (case attempt d (start_actions opts) of
        (performed, None) \<Rightarrow>
          (None, t\<lparr>started := True, webContainer := Some ContainerHandle,
                  process := Some \<lparr>input_locked = False\<rparr>, initialized := True,
                  trace := trace t @ performed @ [PipeOutput]\<rparr>)
      | (performed, Some e) \<Rightarrow>
          (Some e,
           t\<lparr>started := True,
             webContainer := if Boot (bootOptions opts) \<in> set (butlast performed)
                             then Some ContainerHandle else webContainer t,
             trace := trace t @ performed\<rparr>))"
proof (cases opts)
  case (FileBased fs ep bo)
  show ?thesis
  proof (cases "has_manifest fs")
    case True
    with FileBased show ?thesis
      by (simp add: start_actions_def start_steps_def step_defs split: option.split)
  next
    case False
    with FileBased show ?thesis
      by (simp add: start_actions_def start_steps_def step_defs split: option.split)
  qed
next
  case (SpawnBased cmd as ev bo)
  then show ?thesis
    by (simp add: start_actions_def start_steps_def step_defs split: option.split)
qed

lemma start_eq_settled:
  assumes "\<not> started t"
  shows "start d t = start_settled d t"
proof (cases "attempt d (start_actions (options t))")
  case (Pair p r)
  with assms show ?thesis
    by (cases r)
      (simp_all add: start_def start_settled_def run_start_steps report_and_rethrow_def
        perform_def split: option.split)
qed

lemma attempt_Some:
  "attempt d as = (p, Some e) \<Longrightarrow>
     p \<noteq> [] \<and> world d (last p) = Some e \<and> list_all (\<lambda>a. world d a = None) (butlast p)"
proof (induction as arbitrary: p)
  case Nil
  then show ?case by simp
next
  case (Cons a as)
  show ?case
  proof (cases "world d a")
    case None
    with Cons.prems obtain q where q: "attempt d as = (q, Some e)" "p = a # q"
      by (auto split: prod.splits)
    from Cons.IH [OF q(1)] q(2) None show ?thesis by simp
  next
    case (Some e')
    with Cons.prems show ?thesis by auto
  qed
qed

lemma attempt_None:
  "attempt d as = (p, None) \<Longrightarrow> p = as \<and> list_all (\<lambda>a. world d a = None) as"
proof (induction as arbitrary: p)
  case Nil
  then show ?case by simp
next
  case (Cons a as)
  show ?case
  proof (cases "world d a")
    case None
    with Cons.prems obtain q where q: "attempt d as = (q, None)" "p = a # q"
      by (auto split: prod.splits)
    from Cons.IH [OF q(1)] q(2) None show ?thesis by simp
  next
    case (Some e')
    with Cons.prems show ?thesis by auto
  qed
qed

text \<open>
  C7, amended: a \<^verbatim>\<open>start()\<close> on a transport that is not started returns normally only
  if every action it performed returned. Otherwise the last action performed in the try
  block threw an error, the cause; the started flag is false again, the error callback
  fires with the cause as the last action of the call, and the caller receives the cause
  when the error callback returns, and what the error callback threw when it throws.
\<close>

theorem start_failure:
  assumes "\<not> started t"
  shows "case start d t of
           (None, t') \<Rightarrow>
             started t' \<and> list_all (\<lambda>a. a = PipeOutput \<or> world d a = None) (new_actions t t')
         | (Some e, t') \<Rightarrow>
             \<not> started t' \<and>
             (\<exists>cause. world d (last (butlast (new_actions t t'))) = Some cause \<and>
                last (new_actions t t') = OnError cause \<and>
                e = (case world d (OnError cause) of None \<Rightarrow> cause | Some e' \<Rightarrow> e'))"
proof (cases "attempt d (start_actions (options t))")
  case (Pair p r)
  show ?thesis
  proof (cases r)
    case None
    with Pair have "list_all (\<lambda>a. world d a = None) p"
      using attempt_None by blast
    then have "list_all (\<lambda>a. a = PipeOutput \<or> world d a = None) (p @ [PipeOutput])"
      by (induction p) auto
    with assms Pair None show ?thesis
      by (simp add: start_eq_settled start_settled_def new_actions_def)
  next
    case (Some cause)
    with Pair have "p \<noteq> []" "world d (last p) = Some cause"
      using attempt_Some by blast+
    with assms Pair Some show ?thesis
      by (simp add: start_eq_settled start_settled_def new_actions_def butlast_append
          split: option.split)
  qed
qed

lemma start_success:
  assumes "start d t = (None, t')"
  shows "\<not> started t \<and> new_actions t t' = start_actions (options t) @ [PipeOutput] \<and>
    list_all (\<lambda>a. world d a = None) (start_actions (options t)) \<and>
    started t' \<and> initialized t' \<and> webContainer t' = Some ContainerHandle \<and>
    process t' = Some \<lparr>input_locked = False\<rparr>"
proof -
  from assms have ns: "\<not> started t"
    by (auto simp: start_def)
  obtain p r where pr: "attempt d (start_actions (options t)) = (p, r)"
    by (cases "attempt d (start_actions (options t))")
  with assms ns have r: "r = None"
    by (cases r) (auto simp: start_eq_settled start_settled_def split: option.splits)
  with pr have "p = start_actions (options t)" "list_all (\<lambda>a. world d a = None) (start_actions (options t))"
    using attempt_None by blast+
  with assms ns pr r show ?thesis
    by (auto simp: start_eq_settled start_settled_def new_actions_def)
qed

text \<open>
  C3, amended: a successful \<^verbatim>\<open>start()\<close> fires exactly booting, mounting, installing,
  running for a files configuration whose mapping gives \<^verbatim>\<open>package.json\<close> a non-empty
  content, exactly booting, mounting, running for a files configuration whose mapping has
  no \<^verbatim>\<open>package.json\<close> or gives it the empty string, and exactly booting, running for a
  spawn configuration.
\<close>

theorem start_status_sequence:
  assumes "start d t = (None, t')"
  shows "status_changes (new_actions t t') =
     (case options t of
        FileBased fs ep bo \<Rightarrow>
          if \<exists>content. fs (str ''package.json'') = Some content \<and> content \<noteq> []
          then [Booting, Mounting, Installing, Running]
          else [Booting, Mounting, Running]
      | SpawnBased cmd as ev bo \<Rightarrow> [Booting, Running])"
proof -
  from assms have "new_actions t t' = start_actions (options t) @ [PipeOutput]"
    using start_success by blast
  then show ?thesis
    by (cases "options t")
      (simp_all add: start_actions_def status_changes_def map_filter_simps
        has_manifest_iff [symmetric])
qed

text \<open>
  C4, amended: with a files configuration, \<^verbatim>\<open>start()\<close> enters the install step (fires
  the installing status) exactly when boot and mount have returned and the mapping gives
  \<^verbatim>\<open>package.json\<close> a non-empty content; in a \<^verbatim>\<open>start()\<close> that succeeds, the install
  command is spawned and its exit awaited exactly when the mapping does so.
\<close>

theorem install_step_iff_manifest:
  assumes "\<not> started t" and "options t = FileBased fs ep bo"
  shows "(StatusChange Installing \<in> set (new_actions t (snd (start d t))) \<longleftrightarrow>
            (\<exists>content. fs (str ''package.json'') = Some content \<and> content \<noteq> []) \<and>
            world d (StatusChange Booting) = None \<and> world d (Boot bo) = None \<and>
            world d (StatusChange Mounting) = None \<and> world d (Mount (webContainerFiles fs)) = None) \<and>
         (fst (start d t) = None \<longrightarrow>
            (SpawnProc (str ''npm'') [str ''install''] None \<in> set (new_actions t (snd (start d t)))
               \<longleftrightarrow> (\<exists>content. fs (str ''package.json'') = Some content \<and> content \<noteq> [])) \<and>
            (AwaitExit \<in> set (new_actions t (snd (start d t)))
               \<longleftrightarrow> (\<exists>content. fs (str ''package.json'') = Some content \<and> content \<noteq> [])))"
proof -
  have first: "StatusChange Installing \<in> set (new_actions t (snd (start d t))) \<longleftrightarrow>
            has_manifest fs \<and> world d (StatusChange Booting) = None \<and> world d (Boot bo) = None \<and>
            world d (StatusChange Mounting) = None \<and> world d (Mount (webContainerFiles fs)) = None"
    using assms
    by (cases "has_manifest fs")
      (simp_all add: start_eq_settled start_settled_def start_actions_def new_actions_def
        split: option.split)
  have second: "(SpawnProc (str ''npm'') [str ''install''] None \<in> set (new_actions t (snd (start d t)))
               \<longleftrightarrow> has_manifest fs) \<and>
            (AwaitExit \<in> set (new_actions t (snd (start d t))) \<longleftrightarrow> has_manifest fs)"
    if "fst (start d t) = None"
  proof -
    from that have "start d t = (None, snd (start d t))"
      by (simp add: prod_eq_iff)
    then have "new_actions t (snd (start d t)) = start_actions (options t) @ [PipeOutput]"
      using start_success by blast
    with assms(2) show ?thesis
      by (simp add: start_actions_def str_def)
  qed
  from first second show ?thesis
    unfolding has_manifest_iff by blast
qed

section \<open>Closing\<close>

lemma kill_process_eq:
  "kill_process d t =
     (None, if process t = None then t
            else t\<lparr>process := None,
                   trace := trace t @ Kill # (if world d Kill = None then [Delay 1000] else [])\<rparr>)"
  by (cases "world d Kill") (simp_all add: kill_process_def step_defs)

lemma teardown_container_eq:
  "teardown_container d t =
     (None, if webContainer t = None then t
            else t\<lparr>webContainer := None,
                   trace := trace t @ StatusChange Teardowned #
                     (if world d (StatusChange Teardowned) = None then [Teardown] else [])\<rparr>)"
  by (cases "world d (StatusChange Teardowned)"; cases "world d Teardown")
    (simp_all add: teardown_container_def step_defs)

lemma close_eq:
  "close d t =
     (if started t \<and> world d (StatusChange Unmounting) \<noteq> None
      then (world d (StatusChange Unmounting), t\<lparr>trace := trace t @ [StatusChange Unmounting]\<rparr>)
      else (world d OnClose,
            t\<lparr>webContainer := None, process := None, started := False, initialized := False,
              trace := trace t @ close_actions d t\<rparr>))"
proof (cases "started t")
  case True
  show ?thesis
  proof (cases "world d (StatusChange Unmounting)")
    case None
    with True show ?thesis
      by (cases "world d OnClose")
        (simp_all add: close_def close_actions_def kill_process_eq teardown_container_eq
          perform_def guarded_def assign_def)
  next
    case (Some e)
    with True show ?thesis
      by (simp add: close_def perform_def guarded_def)
  qed
next
  case False
  then show ?thesis
    by (cases "world d OnClose")
      (simp_all add: close_def close_actions_def kill_process_eq teardown_container_eq
        perform_def guarded_def assign_def)
qed

text \<open>
  C5, amended: when the status and close callbacks return, \<^verbatim>\<open>close()\<close> returns
  normally and fires the close callback exactly once, whatever the kill and the teardown
  do. It fires the unmounting status exactly when the transport is started and the
  teardowned status exactly when an environment handle is held: none before
  \<^verbatim>\<open>start()\<close> or after a \<^verbatim>\<open>start()\<close> that failed before the boot returned, and
  teardowned after a \<^verbatim>\<open>start()\<close> that failed later.
\<close>

theorem close_completes:
  assumes "world d OnClose = None" and "world d (StatusChange Unmounting) = None"
  shows "fst (close d t) = None \<and>
    count_list (new_actions t (snd (close d t))) OnClose = 1 \<and>
    status_changes (new_actions t (snd (close d t))) =
      (if started t then [Unmounting] else []) @
      (if webContainer t = None then [] else [Teardowned])"
  using assms
  by (simp add: close_eq close_actions_def new_actions_def status_changes_def map_filter_simps)

text \<open>
  C9, amended: when a process handle is held and the kill returns, the 1000 ms delay
  follows the kill at once and precedes the teardowned status and the teardown.
\<close>

theorem close_grace_delay:
  assumes "process t \<noteq> None" and "world d Kill = None"
    and "world d (StatusChange Unmounting) = None"
  shows "new_actions t (snd (close d t)) =
     (if started t then [StatusChange Unmounting] else [])
     @ [Kill, Delay 1000]
     @ (if webContainer t = None then []
        else StatusChange Teardowned #
          (if world d (StatusChange Teardowned) = None then [Teardown] else []))
     @ [OnClose]"
  using assms
  by (simp add: close_eq close_actions_def new_actions_def)

section \<open>The state invariant\<close>

text \<open>The four ways a \<^verbatim>\<open>send\<close> can go.\<close>

lemma send_not_started:
  "process t = None \<Longrightarrow> send d m t = (Some (Error ''Transport not started''), t)"
  by (simp add: send_def)

lemma send_locked:
  assumes "process t = Some p" and "input_locked p"
  shows "send d m t =
     (Some (case world d (OnError (TypeError ''stream is locked'')) of
              None \<Rightarrow> TypeError ''stream is locked'' | Some e' \<Rightarrow> e'),
      t\<lparr>trace := trace t @ [GetWriter, OnError (TypeError ''stream is locked'')]\<rparr>)"
  using assms
  by (cases "world d (OnError (TypeError ''stream is locked''))")
    (simp_all add: send_def getWriter_def step_defs)

lemma send_written:
  assumes "process t = Some p" and "\<not> input_locked p"
    and "world d (Write (stringify d m @ [LF])) = None"
  shows "send d m t =
     (None,
      t\<lparr>process := Some (p\<lparr>input_locked := False\<rparr>),
        trace := trace t @ [GetWriter, Write (stringify d m @ [LF]), ReleaseLock]\<rparr>)"
  using assms by (simp add: send_def getWriter_def releaseLock_def step_defs)

lemma send_write_failed:
  assumes "process t = Some p" and "\<not> input_locked p"
    and "world d (Write (stringify d m @ [LF])) = Some e"
  shows "send d m t =
     (Some (case world d (OnError e) of None \<Rightarrow> e | Some e' \<Rightarrow> e'),
      t\<lparr>process := Some (p\<lparr>input_locked := True\<rparr>),
        trace := trace t @ [GetWriter, Write (stringify d m @ [LF]), OnError e]\<rparr>)"
  using assms
  by (cases "world d (OnError e)")
    (simp_all add: send_def getWriter_def releaseLock_def step_defs)

lemma send_fields:
  "started (snd (send d m t)) = started t \<and>
   initialized (snd (send d m t)) = initialized t \<and>
   webContainer (snd (send d m t)) = webContainer t \<and>
   (process (snd (send d m t)) = None \<longleftrightarrow> process t = None)"
proof (cases "process t")
  case None
  then show ?thesis by (simp add: send_not_started)
next
  case (Some p)
  show ?thesis
  proof (cases "input_locked p")
    case True
    with Some show ?thesis by (simp add: send_locked)
  next
    case False
    with Some show ?thesis
      by (cases "world d (Write (stringify d m @ [LF]))")
        (simp_all add: send_written send_write_failed)
  qed
qed

lemma start_invariant:
  assumes "state_invariant t"
  shows "state_invariant (snd (start d t))"
proof (cases "started t")
  case True
  with assms show ?thesis by (simp add: start_def)
next
  case False
  obtain p r where "attempt d (start_actions (options t)) = (p, r)"
    by (cases "attempt d (start_actions (options t))")
  with assms False show ?thesis
    by (cases r) (auto simp: start_eq_settled start_settled_def state_invariant_def)
qed

text \<open>
  C10: a new transport satisfies the invariant (initialized implies started; a process
  handle is held only when started and with an environment handle), and \<^verbatim>\<open>start\<close>,
  \<^verbatim>\<open>send\<close> and \<^verbatim>\<open>close\<close> preserve it, however they settle.
\<close>

theorem invariant_preserved:
  "state_invariant (new_transport opts :: 'm transport) \<and>
   (state_invariant (t :: 'm transport) \<longrightarrow>
      state_invariant (snd (start d t)) \<and>
      state_invariant (snd (send d message t)) \<and>
      state_invariant (snd (close d t)))"
proof -
  have "state_invariant (new_transport opts :: 'm transport)"
    by (simp add: state_invariant_def new_transport_def)
  moreover have "state_invariant (snd (send d message t))" if "state_invariant t"
    using that send_fields [of d message t] by (auto simp: state_invariant_def)
  moreover have "state_invariant (snd (close d t))" if "state_invariant t"
    using that by (simp add: close_eq state_invariant_def)
  ultimately show ?thesis
    using start_invariant by blast
qed

section \<open>Concrete runs\<close>

lemma running_transport_eq:
  "running_transport =
     \<lparr>options = SpawnBased (str ''node'') [str ''server.js''] None None,
      webContainer = Some ContainerHandle, process = Some \<lparr>input_locked = False\<rparr>,
      started = True, outputBuffer = [], initialized = True,
      trace = [StatusChange Booting, Boot None, StatusChange Running,
               SpawnProc (str ''node'') [str ''server.js''] None, PipeOutput]\<rparr>"
  by (simp add: running_transport_def spawn_transport_def new_transport_def text_deps_def
      start_eq_settled start_settled_def start_actions_def)

text \<open>
  C3, as stated, fails: the mapping has a \<^verbatim>\<open>package.json\<close> entry, its content is the
  empty string, which \<^verbatim>\<open>if (this._options.files["package.json"])\<close> takes for false,
  and the statuses of the successful start are booting, mounting, running.
\<close>

theorem manifest_status_counterexample:
  "empty_manifest_files (str ''package.json'') = Some [] \<and>
   fst (start text_deps (files_transport empty_manifest_files)) = None \<and>
   status_changes (trace (snd (start text_deps (files_transport empty_manifest_files)))) =
     [Booting, Mounting, Running]"
  by (simp add: files_transport_def new_transport_def text_deps_def empty_manifest_files_def
      start_eq_settled start_settled_def start_actions_def has_manifest_def
      status_changes_def map_filter_simps)

text \<open>The facts that evaluate a \<^verbatim>\<open>start\<close> on a concrete transport.\<close>

lemmas start_eval = start_eq_settled start_settled_def start_actions_def has_manifest_def
  new_transport_def text_deps_def failing_def

text \<open>C3, amended, on the mapping whose manifest has a content.\<close>

theorem start_status_sequence_witness:
  "fst (start text_deps (files_transport manifest_files)) = None \<and>
   manifest_files (str ''package.json'') = Some (str ''{}'') \<and>
   status_changes (new_actions (files_transport manifest_files)
       (snd (start text_deps (files_transport manifest_files)))) =
     [Booting, Mounting, Installing, Running]"
proof -
  define t' where "t' = snd (start text_deps (files_transport manifest_files))"
  have m: "manifest_files (str ''package.json'') = Some (str ''{}'')"
    by (simp add: manifest_files_def)
  have m': "str ''{}'' \<noteq> []"
    by (simp add: str_def)
  have f: "fst (start text_deps (files_transport manifest_files)) = None"
    by (simp add: files_transport_def manifest_files_def str_def start_eval)
  then have run: "start text_deps (files_transport manifest_files) = (None, t')"
    by (simp add: t'_def prod_eq_iff)
  have "status_changes (new_actions (files_transport manifest_files) t') =
      [Booting, Mounting, Installing, Running]"
    using start_status_sequence [OF run] m m'
    by (simp add: files_transport_def new_transport_def)
  with f m show ?thesis
    by (simp add: t'_def)
qed

text \<open>
  C4, as stated, fails: \<^verbatim>\<open>package.json\<close> is a key of the mapping, and the successful
  start goes from the mount to the running status with no install command in between.
\<close>

theorem manifest_install_counterexample:
  "str ''package.json'' \<in> dom empty_manifest_files \<and>
   fst (start text_deps (files_transport empty_manifest_files)) = None \<and>
   trace (snd (start text_deps (files_transport empty_manifest_files))) =
     [StatusChange Booting, Boot None, StatusChange Mounting,
      Mount (webContainerFiles empty_manifest_files), StatusChange Running,
      SpawnProc (str ''node'') [str ''index.js''] None, PipeOutput]"
  by (simp add: files_transport_def empty_manifest_files_def entry_or_default_def start_eval)

text \<open>C4, amended, on the mapping whose manifest has a content.\<close>

theorem install_step_iff_manifest_witness:
  "\<not> started (files_transport manifest_files) \<and>
   options (files_transport manifest_files) = FileBased manifest_files None None \<and>
   manifest_files (str ''package.json'') = Some (str ''{}'') \<and>
   fst (start text_deps (files_transport manifest_files)) = None \<and>
   StatusChange Installing \<in> set (new_actions (files_transport manifest_files)
       (snd (start text_deps (files_transport manifest_files)))) \<and>
   SpawnProc (str ''npm'') [str ''install''] None \<in> set (new_actions (files_transport manifest_files)
       (snd (start text_deps (files_transport manifest_files)))) \<and>
   AwaitExit \<in> set (new_actions (files_transport manifest_files)
       (snd (start text_deps (files_transport manifest_files))))"
proof -
  have ns: "\<not> started (files_transport manifest_files)"
    by (simp add: files_transport_def new_transport_def)
  have o: "options (files_transport manifest_files) = FileBased manifest_files None None"
    by (simp add: files_transport_def new_transport_def)
  have m: "manifest_files (str ''package.json'') = Some (str ''{}'')"
    by (simp add: manifest_files_def)
  have m': "str ''{}'' \<noteq> []"
    by (simp add: str_def)
  have f: "fst (start text_deps (files_transport manifest_files)) = None"
    by (simp add: files_transport_def manifest_files_def str_def start_eval)
  have w: "world text_deps a = None" for a
    by (simp add: text_deps_def)
  show ?thesis
    using install_step_iff_manifest [OF ns o, of text_deps] ns o m m' f w by simp
qed

text \<open>
  C7, as stated, fails: the boot rejects and the error callback, called with that error,
  throws one of its own, which is what the caller of \<^verbatim>\<open>start()\<close> receives.
\<close>

theorem rethrow_counterexample:
  "world throwing_handler_deps (Boot None) = Some (Error ''boot failed'') \<and>
   fst (start throwing_handler_deps spawn_transport) = Some (Error ''handler failed'') \<and>
   trace (snd (start throwing_handler_deps spawn_transport)) =
     [StatusChange Booting, Boot None, OnError (Error ''boot failed'')]"
  by (simp add: throwing_handler_deps_def spawn_transport_def start_eval)

text \<open>C7, amended, when the boot rejects and the error callback returns.\<close>

theorem start_failure_witness:
  "\<not> started spawn_transport \<and>
   fst (start (failing is_boot ''boot failed'') spawn_transport) = Some (Error ''boot failed'') \<and>
   \<not> started (snd (start (failing is_boot ''boot failed'') spawn_transport)) \<and>
   last (new_actions spawn_transport (snd (start (failing is_boot ''boot failed'') spawn_transport))) =
     OnError (Error ''boot failed'')"
proof -
  define d where "d = failing is_boot ''boot failed''"
  define t' where "t' = snd (start d spawn_transport)"
  have ns: "\<not> started spawn_transport"
    by (simp add: spawn_transport_def new_transport_def)
  have f: "fst (start d spawn_transport) = Some (Error ''boot failed'')"
    by (simp add: d_def spawn_transport_def start_eval)
  then have run: "start d spawn_transport = (Some (Error ''boot failed''), t')"
    by (simp add: t'_def prod_eq_iff)
  have w: "world d (OnError e) = None" for e
    by (simp add: d_def failing_def)
  from start_failure [OF ns, of d] run w
  have "\<not> started t' \<and> last (new_actions spawn_transport t') = OnError (Error ''boot failed'')"
    by auto
  with ns f show ?thesis
    by (simp add: d_def t'_def)
qed

text \<open>C8 on the transport that has started.\<close>

theorem start_already_started_witness:
  "started running_transport \<and>
   start text_deps running_transport =
     (Some (Error ''WebContainerTransport already started!''), running_transport)"
proof -
  have s: "started running_transport"
    by (simp add: running_transport_eq)
  show ?thesis
    using start_already_started [OF s, of text_deps] s by simp
qed

lemma half_started_eq:
  "half_started =
     spawn_transport\<lparr>webContainer := Some ContainerHandle,
       trace := [StatusChange Booting, Boot None, StatusChange Running,
                 SpawnProc (str ''node'') [str ''server.js''] None,
                 OnError (Error ''spawn failed'')]\<rparr>"
  by (simp add: half_started_def spawn_transport_def start_eval)

text \<open>
  C5, as stated, fails: after that failed \<^verbatim>\<open>start()\<close>, \<^verbatim>\<open>close()\<close> fires the
  teardowned status.
\<close>

theorem close_after_failed_start_counterexample:
  "fst (start (failing is_spawn ''spawn failed'') spawn_transport) = Some (Error ''spawn failed'') \<and>
   \<not> started half_started \<and>
   fst (close text_deps half_started) = None \<and>
   new_actions half_started (snd (close text_deps half_started)) =
     [StatusChange Teardowned, Teardown, OnClose]"
  by (simp add: half_started_eq close_eq close_actions_def new_actions_def)
    (simp add: spawn_transport_def start_eval)

text \<open>
  C5, amended, on the started transport when both the kill and the teardown throw, and
  on a transport that was never started.
\<close>

theorem close_completes_witness:
  "world (failing is_kill_or_teardown ''gone'') OnClose = None \<and>
   world (failing is_kill_or_teardown ''gone'') (StatusChange Unmounting) = None \<and>
   fst (close (failing is_kill_or_teardown ''gone'') running_transport) = None \<and>
   new_actions running_transport (snd (close (failing is_kill_or_teardown ''gone'') running_transport)) =
     [StatusChange Unmounting, Kill, StatusChange Teardowned, Teardown, OnClose] \<and>
   status_changes (new_actions running_transport
       (snd (close (failing is_kill_or_teardown ''gone'') running_transport))) =
     [Unmounting, Teardowned] \<and>
   count_list (new_actions spawn_transport (snd (close text_deps spawn_transport))) OnClose = 1 \<and>
   status_changes (new_actions spawn_transport (snd (close text_deps spawn_transport))) = []"
proof -
  define d where "d = failing is_kill_or_teardown ''gone''"
  have w: "world d OnClose = None" "world d (StatusChange Unmounting) = None"
    by (simp_all add: d_def failing_def)
  have w': "world text_deps OnClose = None" "world text_deps (StatusChange Unmounting) = None"
    by (simp_all add: text_deps_def)
  have n: "new_actions running_transport (snd (close d running_transport)) =
     [StatusChange Unmounting, Kill, StatusChange Teardowned, Teardown, OnClose]"
    by (simp add: running_transport_eq close_eq close_actions_def new_actions_def d_def
        failing_def)
  have s: "started running_transport \<and> webContainer running_transport \<noteq> None \<and>
      \<not> started spawn_transport \<and> webContainer spawn_transport = None"
    by (simp add: running_transport_eq spawn_transport_def new_transport_def)
  show ?thesis
    using close_completes [OF w, of running_transport]
      close_completes [OF w', of spawn_transport] w n s
    by (simp add: d_def)
qed

text \<open>
  C9, as stated, fails: the kill and the delay share one try block, so when the kill
  throws, \<^verbatim>\<open>close()\<close> goes on to the teardown with no delay.
\<close>

theorem kill_failure_skips_delay_counterexample:
  "process running_transport = Some \<lparr>input_locked = False\<rparr> \<and>
   world (failing is_kill_or_teardown ''gone'') Kill = Some (Error ''gone'') \<and>
   new_actions running_transport (snd (close (failing is_kill_or_teardown ''gone'') running_transport)) =
     [StatusChange Unmounting, Kill, StatusChange Teardowned, Teardown, OnClose]"
  by (simp add: running_transport_eq close_eq close_actions_def new_actions_def failing_def)

text \<open>C9, amended, on the started transport.\<close>

theorem close_grace_delay_witness:
  "process running_transport \<noteq> None \<and> world text_deps Kill = None \<and>
   world text_deps (StatusChange Unmounting) = None \<and>
   new_actions running_transport (snd (close text_deps running_transport)) =
     [StatusChange Unmounting, Kill, Delay 1000, StatusChange Teardowned, Teardown, OnClose]"
proof -
  have p: "process running_transport \<noteq> None"
    by (simp add: running_transport_eq)
  have w: "world text_deps Kill = None" "world text_deps (StatusChange Unmounting) = None"
    "world text_deps (StatusChange Teardowned) = None"
    by (simp_all add: text_deps_def)
  have s: "started running_transport \<and> webContainer running_transport \<noteq> None"
    by (simp add: running_transport_eq)
  show ?thesis
    using close_grace_delay [OF p w(1) w(2)] p w s by simp
qed

text \<open>C10 along a run: construction, start, send, close.\<close>

theorem invariant_preserved_witness:
  "state_invariant spawn_transport \<and>
   state_invariant running_transport \<and>
   state_invariant (snd (send text_deps ping_line running_transport)) \<and>
   state_invariant (snd (close text_deps running_transport))"
proof -
  note inv = invariant_preserved [where opts = "SpawnBased (str ''node'') [str ''server.js''] None None"
      and d = text_deps and message = ping_line]
  have a: "state_invariant spawn_transport"
    using inv [where t = spawn_transport] by (simp add: spawn_transport_def)
  then have b: "state_invariant running_transport"
    using inv [where t = spawn_transport] by (simp add: running_transport_def)
  then have "state_invariant (snd (send text_deps ping_line running_transport))"
    and "state_invariant (snd (close text_deps running_transport))"
    using inv [where t = running_transport] by simp_all
  with a b show ?thesis by simp
qed

section \<open>The writer lock\<close>

text \<open>
  When the writes return, each \<^verbatim>\<open>send\<close> releases the writer it acquired, and a second
  \<^verbatim>\<open>send\<close> succeeds as the first did.
\<close>

lemma send_twice:
  assumes "process t = Some p" and "\<not> input_locked p"
    and "\<And>s. world d (Write s) = None"
  shows "fst (send d m1 t) = None \<and> fst (send d m2 (snd (send d m1 t))) = None \<and>
    process (snd (send d m2 (snd (send d m1 t)))) = Some (p\<lparr>input_locked := False\<rparr>)"
proof -
  let ?t = "snd (send d m1 t)"
  from assms have one: "send d m1 t =
     (None, t\<lparr>process := Some (p\<lparr>input_locked := False\<rparr>),
        trace := trace t @ [GetWriter, Write (stringify d m1 @ [LF]), ReleaseLock]\<rparr>)"
    by (simp add: send_written)
  then have "process ?t = Some (p\<lparr>input_locked := False\<rparr>)"
    by simp
  moreover have "\<not> input_locked (p\<lparr>input_locked := False\<rparr>)"
    by simp
  ultimately have "send d m2 ?t =
     (None, ?t\<lparr>process := Some (p\<lparr>input_locked := False, input_locked := False\<rparr>),
        trace := trace ?t @ [GetWriter, Write (stringify d m2 @ [LF]), ReleaseLock]\<rparr>)"
    using assms(3) by (rule send_written)
  with one show ?thesis by simp
qed

text \<open>
  C2 at a write that rejects: the transport has started and the input stream is
  unlocked. The \<^verbatim>\<open>send\<close> acquires the writer, the write rejects, the error callback
  fires and the error reaches the caller, but \<^verbatim>\<open>releaseLock\<close> stands after the write
  inside the try block and is skipped: the stream is still locked when the call settles,
  and the next \<^verbatim>\<open>send\<close>, to a process that accepts input, fails at \<^verbatim>\<open>getWriter\<close>.
\<close>

theorem send_write_failure_keeps_writer_locked:
  "process running_transport = Some \<lparr>input_locked = False\<rparr> \<and>
   fst (send (failing is_write ''write failed'') ping_line running_transport) =
     Some (Error ''write failed'') \<and>
   new_actions running_transport
       (snd (send (failing is_write ''write failed'') ping_line running_transport)) =
     [GetWriter, Write (ping_line @ [LF]), OnError (Error ''write failed'')] \<and>
   process (snd (send (failing is_write ''write failed'') ping_line running_transport)) =
     Some \<lparr>input_locked = True\<rparr> \<and>
   fst (send text_deps ping_line
       (snd (send (failing is_write ''write failed'') ping_line running_transport))) =
     Some (TypeError ''stream is locked'')"
proof -
  define d where "d = failing is_write ''write failed''"
  have p: "process running_transport = Some \<lparr>input_locked = False\<rparr>"
    by (simp add: running_transport_eq)
  have w: "world d (Write (stringify d ping_line @ [LF])) = Some (Error ''write failed'')"
    "world d (OnError (Error ''write failed'')) = None" "stringify d ping_line = ping_line"
    by (simp_all add: d_def failing_def text_deps_def)
  have one: "send d ping_line running_transport =
     (Some (Error ''write failed''),
      running_transport\<lparr>process := Some \<lparr>input_locked = True\<rparr>,
        trace := trace running_transport @
          [GetWriter, Write (ping_line @ [LF]), OnError (Error ''write failed'')]\<rparr>)"
    using send_write_failed [OF p _ w(1)] w(2,3) by simp
  have two: "fst (send text_deps ping_line (snd (send d ping_line running_transport))) =
      Some (TypeError ''stream is locked'')"
    by (subst send_locked [where p = "\<lparr>input_locked = True\<rparr>"])
      (simp_all add: one text_deps_def)
  from p one two show ?thesis
    by (simp add: d_def new_actions_def)
qed

end
